theory Spec2Isabelle
  imports Main "HOL-Library.Word" "HOL-Library.AList"
begin

section \<open>Python values, errors and the boundary to the framework\<close>

text \<open>
  Exceptions of the source are values: \<open>ValueError\<close> is raised by \<open>create_user\<close>,
  \<open>AttributeError\<close> by an attribute lookup that finds nothing, \<open>DoesNotExist\<close> and
  \<open>MultipleObjectsReturned\<close> by the manager's \<open>get\<close>, \<open>IntegrityError\<close> by a write
  that breaks a \<open>unique=True\<close> column, \<open>BadHeaderError\<close> by Django's mail code for a
  header value of more than one line, \<open>UnicodeError\<close> by its encoding of a header value.
\<close>

datatype error =
  ValueError | AttributeError | DoesNotExist | MultipleObjectsReturned | IntegrityError
  | BadHeaderError | UnicodeError

text \<open>The values an attribute of a \<open>User\<close> instance can hold; methods, managers and
  relations are opaque.\<close>

datatype pyval = PyStr string | PyBool bool | PyTime int | PyOpaque

text \<open>
  What models.py takes from Django and hashlib and does not define itself:
  \<open>BaseUserManager.normalize_email\<close>, the password hasher behind \<open>set_password\<close>,
  and SHA-1 itself, whose digest is 160 bits.
\<close>

record framework =
  normalize_email :: "string \<Rightarrow> string"
  make_password :: "string option \<Rightarrow> string"
  sha1 :: "string \<Rightarrow> 160 word"

text \<open>The entries of \<open>django.conf.settings\<close> the module reads.\<close>

record settings =
  ACCOUNT_ACTIVATION_DAYS :: int
  PROJECT_NAME :: string
  PROJECT_CONTACT :: string
  DEFAULT_TRANSACTIONAL_EMAIL :: "(string \<times> bool) list"

text \<open>Points in time are microseconds (the resolution of \<open>datetime\<close>);
  \<open>timedelta(days=d)\<close> is \<open>d\<close> days of them.\<close>

definition timedelta_days :: "int \<Rightarrow> int" where
  "timedelta_days d = d * 86400 * 1000000"

section \<open>Persistence: a table of model instances\<close>

text \<open>
  Every Django model carries a primary key, \<open>None\<close> until the first save. A table is
  the list of its rows. \<open>Model.save\<close> updates the row with the instance's key when
  there is one and inserts otherwise, handing out the next free key; \<open>clash\<close> says when
  two rows break a unique column.
\<close>

record model =
  pk :: "nat option"

definition next_pk :: "'a model_scheme list \<Rightarrow> nat" where
  "next_pk rows = Suc (fold max (map (\<lambda>r. case pk r of None \<Rightarrow> 0 | Some i \<Rightarrow> i) rows) 0)"

definition db_update ::
  "('a model_scheme \<Rightarrow> 'a model_scheme \<Rightarrow> bool) \<Rightarrow> 'a model_scheme \<Rightarrow> 'a model_scheme list
    \<Rightarrow> (error + 'a model_scheme \<times> bool) \<times> 'a model_scheme list" where
  "db_update clash obj rows =
     (if list_ex (\<lambda>r. pk r \<noteq> pk obj \<and> clash obj r) rows then (Inl IntegrityError, rows)
      else (Inr (obj, False), map (\<lambda>r. if pk r = pk obj then obj else r) rows))"

definition db_insert ::
  "('a model_scheme \<Rightarrow> 'a model_scheme \<Rightarrow> bool) \<Rightarrow> 'a model_scheme \<Rightarrow> 'a model_scheme list
    \<Rightarrow> (error + 'a model_scheme \<times> bool) \<times> 'a model_scheme list" where
  "db_insert clash obj rows =
     (if list_ex (clash obj) rows then (Inl IntegrityError, rows)
      else (Inr (obj, True), rows @ [obj]))"

text \<open>The second component of the result is the \<open>created\<close> flag that \<open>post_save\<close>
  receivers get.\<close>

definition save_base ::
  "('a model_scheme \<Rightarrow> 'a model_scheme \<Rightarrow> bool) \<Rightarrow> 'a model_scheme \<Rightarrow> 'a model_scheme list
    \<Rightarrow> (error + 'a model_scheme \<times> bool) \<times> 'a model_scheme list" where
  "save_base clash obj rows =
     (case pk obj of
        None \<Rightarrow> db_insert clash (obj\<lparr>pk := Some (next_pk rows)\<rparr>) rows
      | Some i \<Rightarrow>
          if list_ex (\<lambda>r. pk r = Some i) rows then db_update clash obj rows
          else db_insert clash obj rows)"

section \<open>models.py: users\<close>

definition ACTIVATED :: string where
  "ACTIVATED = ''ALREADY_ACTIVATED''"

text \<open>\<open>SHA1_RE = re.compile('^[a-f0-9]{40}$')\<close>, used through \<open>search\<close>: forty
  characters of the class, from the start of the string to its end, where Python's
  \<open>$\<close> also matches just before one final newline.\<close>

definition hex_class :: "char list" where
  "hex_class = ''abcdef0123456789''"

definition hex40 :: "string \<Rightarrow> bool" where
  "hex40 s = (length s = 40 \<and> list_all (\<lambda>c. c \<in> set hex_class) s)"

definition SHA1_RE_search :: "string \<Rightarrow> bool" where
  "SHA1_RE_search s =
     (hex40 s \<or> (length s = 41 \<and> last s = CHR 0x0A \<and> hex40 (butlast s)))"

record user = model +
  password :: string
  is_superuser :: bool
  email :: string
  created :: int
  is_active :: bool
  is_staff :: bool
  activation_key :: string

text \<open>The two signals of the module, and every write of a user row, in the order in
  which they happen.\<close>

datatype 'e event =
  Persisted user
  | Inactive_user_created user "'e option"
  | User_activated user

record 'e user_db =
  user_rows :: "user list"
  trace :: "'e event list"

text \<open>\<open>user.save()\<close>: \<open>email\<close> is the one unique column of the table.\<close>

definition User_save :: "user \<Rightarrow> 'e user_db \<Rightarrow> (error + user) \<times> 'e user_db" where
  "User_save u db =
     (case save_base (\<lambda>a b. email a = email b) u (user_rows db) of
        (Inl e, rows) \<Rightarrow> (Inl e, db)
      | (Inr (u', c), rows) \<Rightarrow>
          (Inr u', db\<lparr>user_rows := rows, trace := trace db @ [Persisted u']\<rparr>))"

text \<open>\<open>self.get(activation_key=...)\<close>.\<close>

definition get_by_activation_key :: "string \<Rightarrow> user list \<Rightarrow> error + user" where
  "get_by_activation_key k rows =
     (case filter (\<lambda>u. activation_key u = k) rows of
        [] \<Rightarrow> Inl DoesNotExist
      | [u] \<Rightarrow> Inr u
      | _ \<Rightarrow> Inl MultipleObjectsReturned)"

text \<open>
  \<open>create_user(email, password=None, is_active=True)\<close>. An absent email is \<open>None\<close>.
  The new instance takes the field defaults: \<open>created\<close> is the time of the call,
  \<open>is_staff\<close> and \<open>is_superuser\<close> are false, and \<open>activation_key\<close>, a \<open>CharField\<close>
  with no default, is the empty string.
\<close>

definition create_user ::
  "framework \<Rightarrow> int \<Rightarrow> string option \<Rightarrow> string option \<Rightarrow> bool \<Rightarrow> 'e user_db
    \<Rightarrow> (error + user) \<times> 'e user_db" where
  "create_user fw now email' password' is_active' db =
     (case email' of
        None \<Rightarrow> (Inl ValueError, db)
      | Some e \<Rightarrow>
          if e = [] then (Inl ValueError, db)
          else User_save
            \<lparr>pk = None, password = make_password fw password', is_superuser = False,
             email = normalize_email fw e, created = now, is_active = is_active',
             is_staff = False, activation_key = []\<rparr> db)"

definition create_superuser ::
  "framework \<Rightarrow> int \<Rightarrow> string option \<Rightarrow> string option \<Rightarrow> 'e user_db
    \<Rightarrow> (error + user) \<times> 'e user_db" where
  "create_superuser fw now email' password' db =
     (case create_user fw now email' password' True db of
        (Inl e, db') \<Rightarrow> (Inl e, db')
      | (Inr u, db') \<Rightarrow> User_save (u\<lparr>is_superuser := True, is_staff := True\<rparr>) db')"

text \<open>\<open>hexdigest()\<close>: the forty nibbles of the digest, most significant first, in
  lowercase.\<close>

definition hex_digit :: "nat \<Rightarrow> char" where
  "hex_digit n = ''0123456789abcdef'' ! (n mod 16)"

definition hexdigest :: "160 word \<Rightarrow> string" where
  "hexdigest w = map (\<lambda>i. hex_digit (unat (drop_bit (4 * (39 - i)) w))) [0..<40]"

text \<open>\<open>_get_activation_key\<close>; \<open>rnd\<close> is \<open>str(random.random())\<close>.\<close>

definition get_activation_key :: "framework \<Rightarrow> string \<Rightarrow> string \<Rightarrow> string" where
  "get_activation_key fw rnd e =
     (let salt = take 5 (hexdigest (sha1 fw rnd))
      in hexdigest (sha1 fw (salt @ e)))"

definition create_inactive_user ::
  "framework \<Rightarrow> int \<Rightarrow> string \<Rightarrow> string option \<Rightarrow> string option \<Rightarrow> 'e option \<Rightarrow> 'e user_db
    \<Rightarrow> (error + user) \<times> 'e user_db" where
  "create_inactive_user fw now rnd email' password' extra_info db =
     (case create_user fw now email' password' False db of
        (Inl e, db') \<Rightarrow> (Inl e, db')
      | (Inr u, db') \<Rightarrow>
          (case User_save (u\<lparr>activation_key := get_activation_key fw rnd (email u)\<rparr>) db' of
             (Inl e, db'') \<Rightarrow> (Inl e, db'')
           | (Inr u', db'') \<Rightarrow>
               (Inr u', db''\<lparr>trace := trace db'' @ [Inactive_user_created u' extra_info]\<rparr>)))"

text \<open>
  Attribute lookup on a \<open>User\<close> instance: the fields and names of the class body of
  \<open>User\<close>, then what \<open>AbstractBaseUser\<close>, \<open>PermissionsMixin\<close> and \<open>Model\<close> give it.
  \<open>ACTIVATED\<close> is a global of the module, not a name of the class or of its bases.
\<close>

definition User_getattr :: "user \<Rightarrow> string \<Rightarrow> pyval option" where
  "User_getattr u =
     map_of
       ([(''email'', PyStr (email u)), (''created'', PyTime (created u)),
         (''is_active'', PyBool (is_active u)), (''is_staff'', PyBool (is_staff u)),
         (''activation_key'', PyStr (activation_key u)),
         (''USERNAME_FIELD'', PyStr ''email''),
         (''password'', PyStr (password u)),
         (''is_superuser'', PyBool (is_superuser u))] @
        map (\<lambda>n. (n, PyOpaque))
          [''get_short_name'', ''get_username'', ''activation_key_expired'',
           ''pk'', ''id'', ''save'', ''delete'', ''last_login'', ''REQUIRED_FIELDS'',
           ''set_password'', ''check_password'', ''set_unusable_password'',
           ''has_usable_password'', ''is_anonymous'', ''is_authenticated'',
           ''natural_key'', ''groups'', ''user_permissions'', ''get_group_permissions'',
           ''get_all_permissions'', ''has_perm'', ''has_perms'', ''has_module_perms'',
           ''DoesNotExist'', ''MultipleObjectsReturned''])"

text \<open>
  \<open>activation_key_expired\<close> compares with \<open>self.ACTIVATED\<close>, returns \<open>True\<close> from
  either test and falls off the end otherwise, which returns \<open>None\<close>.
\<close>

definition activation_key_expired :: "settings \<Rightarrow> int \<Rightarrow> user \<Rightarrow> error + bool option" where
  "activation_key_expired cfg now u =
     (case User_getattr u ''ACTIVATED'' of
        None \<Rightarrow> Inl AttributeError
      | Some a \<Rightarrow>
          if PyStr (activation_key u) = a then Inr (Some True)
          else if created u + timedelta_days (ACCOUNT_ACTIVATION_DAYS cfg) \<le> now
            then Inr (Some True)
          else Inr None)"

text \<open>Truth of a returned \<open>True\<close>, \<open>False\<close> or \<open>None\<close>.\<close>

definition truthy :: "bool option \<Rightarrow> bool" where
  "truthy r = (r = Some True)"

text \<open>\<open>activate_user\<close>; \<open>Inr None\<close> is the bare \<open>return\<close> and the fall through the
  outer \<open>if\<close>.\<close>

definition activate_user ::
  "settings \<Rightarrow> int \<Rightarrow> string \<Rightarrow> 'e user_db \<Rightarrow> (error + user option) \<times> 'e user_db" where
  "activate_user cfg now key db =
     (if SHA1_RE_search key then
        (case get_by_activation_key key (user_rows db) of
           Inl DoesNotExist \<Rightarrow> (Inr None, db)
         | Inl e \<Rightarrow> (Inl e, db)
         | Inr u \<Rightarrow>
             (case activation_key_expired cfg now u of
                Inl e \<Rightarrow> (Inl e, db)
              | Inr r \<Rightarrow>
                  if truthy r then (Inr None, db)
                  else
                    (case User_save (u\<lparr>is_active := True, activation_key := ACTIVATED\<rparr>) db of
                       (Inl e, db') \<Rightarrow> (Inl e, db')
                     | (Inr u', db') \<Rightarrow>
                         (Inr (Some u'), db'\<lparr>trace := trace db' @ [User_activated u']\<rparr>))))
      else (Inr None, db))"

section \<open>models.py: pages\<close>

record page = model +
  name :: string
  url :: string
  title :: string
  content :: string
  template_name :: string
  registration_required :: bool

text \<open>\<open>str.replace\<close> with both arguments one character long, and \<open>str.strip\<close> with a
  one-character argument.\<close>

definition replace_char :: "char \<Rightarrow> char \<Rightarrow> string \<Rightarrow> string" where
  "replace_char old new s = map (\<lambda>c. if c = old then new else c) s"

definition strip_char :: "char \<Rightarrow> string \<Rightarrow> string" where
  "strip_char x s = rev (dropWhile (\<lambda>c. c = x) (rev (dropWhile (\<lambda>c. c = x) s)))"

text \<open>\<open>Page.save\<close>: \<open>name\<close> and \<open>url\<close> are the unique columns.\<close>

definition Page_save :: "page \<Rightarrow> page list \<Rightarrow> (error + page \<times> bool) \<times> page list" where
  "Page_save self rows =
     (let self' =
        (if name self = [] then
           self\<lparr>name := strip_char (CHR ''-'') (replace_char (CHR ''/'') (CHR ''-'') (url self))\<rparr>
         else self)
      in save_base (\<lambda>a b. name a = name b \<or> url a = url b) self' rows)"

section \<open>models.py: contacts and the notification hook\<close>

record contact = model +
  status :: string
  created_at :: int
  updated_at :: int
  contact_name :: string
  contact_email :: string
  phone :: string
  message :: string


text \<open>
  What \<open>EmailMessage.send(fail_silently=True)\<close> does before it reaches the transport,
  with a backend that takes the message on (Django's SMTP backend once connected, and
  the in-memory one). A message with no recipient is dropped. The headers are built
  first, outside the handler of \<open>fail_silently\<close>: \<open>forbid_multi_line_headers\<close> refuses
  a value with a carriage return or a line feed with \<open>BadHeaderError\<close>, and hands a
  value that is not ASCII to the framework's encoder, which is a parameter here and can
  fail too. The headers of a message are \<open>Subject\<close>, \<open>From\<close>, \<open>To\<close> (the recipients
  joined with a comma) and the extra headers, which for the message of this module are
  \<open>Reply-To\<close> only. The outbox is the list of the messages that passed and were handed
  to the transport; what the transport does with them is outside the module, and its
  failures are the ones that \<open>fail_silently\<close> swallows.
\<close>

definition multi_line :: "string \<Rightarrow> bool" where
  "multi_line val = (CHR 0x0A \<in> set val \<or> CHR 0x0D \<in> set val)"

definition is_ascii :: "string \<Rightarrow> bool" where
  "is_ascii val = list_all (\<lambda>c. (of_char c :: nat) < 128) val"

definition forbid_multi_line_headers ::
  "(string \<Rightarrow> string \<Rightarrow> error option) \<Rightarrow> string \<times> string \<Rightarrow> error option" where
  "forbid_multi_line_headers encode =
     (\<lambda>(name, val).
        if multi_line val then Some BadHeaderError
        else if is_ascii val then None
        else encode name val)"



text \<open>The first header that is refused decides the error.\<close>

fun first_error :: "('a \<Rightarrow> error option) \<Rightarrow> 'a list \<Rightarrow> error option" where
  "first_error check [] = None"
| "first_error check (x # xs) =
     (case check x of Some e \<Rightarrow> Some e | None \<Rightarrow> first_error check xs)"








section \<open>gencc.py: the substitution of quoted values\<close>

text \<open>
  A dictionary is an association list with distinct keys, in the order in which
  \<open>iteritems\<close> goes through it. \<open>load_settings\<close> turns the manifest around: the
  concrete value becomes the key, the placeholder token the value, and a later entry
  with the same concrete value overwrites an earlier one. The order of the result is
  that of the first insertions here and that of the hash table in Python, so nothing
  below depends on it.
\<close>

definition placeholder :: "string \<Rightarrow> string" where
  "placeholder k = ''{{cookiecutter.'' @ k @ ''}}''"

definition load_settings :: "(string \<times> string) list \<Rightarrow> (string \<times> string) list" where
  "load_settings manifest = fold (\<lambda>(k, v) d. AList.update v (placeholder k) d) manifest []"

text \<open>\<open>QUOTED % (key,)\<close>: the key goes into the pattern as it is.\<close>

definition QUOTED :: "string \<Rightarrow> string" where
  \<open>QUOTED key = ''["']'' @ key @ ''["']''\<close>

text \<open>
  The part of Python's \<open>re\<close> that is modelled. A pattern is a sequence of items, each
  matching one character: an ordinary character itself, \<open>.\<close> every character but the
  newline, a bracket expression \<open>[...]\<close> every character it lists. \<open>re_parse\<close> reads
  the pattern as \<open>sre_parse\<close> does on this fragment and gives \<open>None\<close> for every
  other pattern: one with a backslash, a repetition, a group, an alternative or an
  anchor, or with a bracket expression that is open, starts with \<open>]\<close> or holds a
  range, a negation, a backslash or another \<open>[\<close>.
\<close>

datatype atom = Lit char | Dot | Cls "char list"

definition special_chars :: "char list" where
  "special_chars = [CHR ''.'', CHR 0x5C, CHR ''['', CHR ''{'', CHR ''('', CHR '')'',
     CHR ''*'', CHR ''+'', CHR ''?'', CHR ''^'', CHR ''$'', CHR ''|'']"

definition class_special :: "char list" where
  "class_special = [CHR 0x5C, CHR ''^'', CHR ''-'', CHR ''['']"

fun re_parse :: "string \<Rightarrow> atom list option"
  and re_parse_class :: "char list \<Rightarrow> string \<Rightarrow> atom list option" where
  "re_parse [] = Some []"
| "re_parse (c # cs) =
     (if c = CHR ''['' then re_parse_class [] cs
      else if c = CHR ''.'' then map_option ((#) Dot) (re_parse cs)
      else if c \<in> set special_chars then None
      else map_option ((#) (Lit c)) (re_parse cs))"
| "re_parse_class acc [] = None"
| "re_parse_class acc (c # cs) =
     (if c = CHR '']'' then
        (if acc = [] then None else map_option ((#) (Cls acc)) (re_parse cs))
      else if c \<in> set class_special then None
      else re_parse_class (acc @ [c]) cs)"

fun atom_matches :: "atom \<Rightarrow> char \<Rightarrow> bool" where
  "atom_matches (Lit c) d = (d = c)"
| "atom_matches Dot d = (d \<noteq> CHR 0x0A)"
| "atom_matches (Cls cs) d = (d \<in> set cs)"

text \<open>A match of the pattern at the start of the text: what follows the match.\<close>

fun match_here :: "atom list \<Rightarrow> string \<Rightarrow> string option" where
  "match_here [] s = Some s"
| "match_here (a # as) [] = None"
| "match_here (a # as) (c # cs) = (if atom_matches a c then match_here as cs else None)"

lemma match_here_length:
  "match_here p s = Some rest \<Longrightarrow> length s = length p + length rest"
  by (induction p s rule: match_here.induct) (auto split: if_splits)

text \<open>
  The scan of \<open>re.sub\<close>: from left to right, the leftmost match is replaced and the
  scan goes on behind it; where nothing matches, one character is copied. The empty
  pattern matches before every character and at the end.
\<close>

function sub_scan :: "atom list \<Rightarrow> string \<Rightarrow> string \<Rightarrow> string" where
  "sub_scan p r [] = (if p = [] then r else [])"
| "sub_scan p r (c # cs) =
     (case match_here p (c # cs) of
        None \<Rightarrow> c # sub_scan p r cs
      | Some rest \<Rightarrow>
          if p = [] then r @ c # sub_scan p r cs
          else r @ sub_scan p r rest)"
  by pat_completeness auto
termination
proof (relation "measure (\<lambda>(p, r, s). length s)")
  fix p :: "atom list" and r :: string and c :: char and cs rest :: string
  assume "match_here p (c # cs) = Some rest" and "p \<noteq> []"
  then have "length rest < length (c # cs)"
    using match_here_length [of p "c # cs" rest] by (cases p) auto
  then show "((p, r, rest), (p, r, c # cs)) \<in> measure (\<lambda>(p, r, s). length s)"
    by simp
qed auto

text \<open>The replacement is a template; without a backslash it stands for itself, and
  only that is modelled. \<open>re_sub\<close> is \<open>None\<close> where the pattern or the replacement
  is outside the modelled part, and so is every result that depends on it. A text is a
  list of characters, one for each character of Python's string.\<close>

definition re_template :: "string \<Rightarrow> string option" where
  "re_template repl = (if CHR 0x5C \<in> set repl then None else Some repl)"

definition re_sub :: "string \<Rightarrow> string \<Rightarrow> string \<Rightarrow> string option" where
  "re_sub pattern repl s =
     (case re_parse pattern of
        None \<Rightarrow> None
      | Some p \<Rightarrow>
          (case re_template repl of
             None \<Rightarrow> None
           | Some r \<Rightarrow> Some (sub_scan p r s)))"

text \<open>\<open>re.search(pattern, s)\<close> finds a match, for a parsed pattern.\<close>

fun re_search :: "atom list \<Rightarrow> string \<Rightarrow> bool" where
  "re_search p [] = (match_here p [] \<noteq> None)"
| "re_search p (c # cs) = (match_here p (c # cs) \<noteq> None \<or> re_search p cs)"

text \<open>The inner loop of \<open>generate_cookiecutter\<close>: every entry of the table is applied
  to the line, one after the other.\<close>

fun rewrite_line :: "(string \<times> string) list \<Rightarrow> string \<Rightarrow> string option" where
  "rewrite_line [] line = Some line"
| "rewrite_line ((key, value) # rest) line =
     (case re_sub (QUOTED key) ([CHR 0x22] @ value @ [CHR 0x22]) line of
        None \<Rightarrow> None
      | Some line' \<Rightarrow> rewrite_line rest line')"

text \<open>A quoted occurrence of a concrete value, as the pattern of the entry finds it.\<close>

definition quoted_occurs :: "string \<Rightarrow> string \<Rightarrow> bool" where
  "quoted_occurs key line =
     (case re_parse (QUOTED key) of None \<Rightarrow> False | Some p \<Rightarrow> re_search p line)"

text \<open>
  The tables on which the substitution is literal. A concrete value is plain when it
  has no quote character and no character that is special in a pattern; for a plain
  value the pattern of its entry is read by \<open>re_parse\<close> and finds the value itself
  between two quote characters. A placeholder token may hold neither a quote character
  nor a backslash, and must not be a concrete value of the table itself.
\<close>

definition quote_chars :: "char list" where
  "quote_chars = [CHR 0x22, CHR 0x27]"

definition plain :: "string \<Rightarrow> bool" where
  "plain v = list_all (\<lambda>c. c \<notin> set special_chars \<and> c \<notin> set quote_chars) v"

definition placeholder_ok :: "string \<Rightarrow> bool" where
  "placeholder_ok t = list_all (\<lambda>c. c \<notin> set quote_chars \<and> c \<noteq> CHR 0x5C) t"

definition plain_table :: "(string \<times> string) list \<Rightarrow> bool" where
  "plain_table table =
     list_all (\<lambda>(v, t). plain v \<and> placeholder_ok t \<and> t \<notin> set (map fst table)) table"

text \<open>Two quoted occurrences of the value that share a quote character: the closing
  quote of the first is the opening quote of the second.\<close>

definition shares_quote :: "string \<Rightarrow> string \<Rightarrow> bool" where
  "shares_quote v line =
     re_search
       (Cls quote_chars # map Lit v @ Cls quote_chars # map Lit v @ [Cls quote_chars]) line"

text \<open>
  For plain values the substitution is followed on the segments of the line: the text
  before the first quote character, then every quote character with the text behind it
  up to the next one (\<open>join\<close> puts the line together again). The pattern of a plain
  value matches at a quote exactly when the segment behind it is the value and another
  quote follows. \<open>pass\<close> is what one entry of the table does to the segments: a
  segment that is the value becomes the placeholder between double quotes, and the scan
  goes on behind the closing quote. \<open>passes\<close> is what the whole table does.
  \<open>inner\<close> are the segments between two quotes, \<open>adj\<close> says that two neighbours
  among them are both the given value.
\<close>

definition quoted_pattern :: "string \<Rightarrow> atom list" where
  "quoted_pattern v = Cls quote_chars # map Lit v @ [Cls quote_chars]"

definition quote_free :: "string \<Rightarrow> bool" where
  "quote_free s = list_all (\<lambda>c. c \<notin> set quote_chars) s"

definition join :: "string \<Rightarrow> (char \<times> string) list \<Rightarrow> string" where
  "join s0 qs = s0 @ concat (map (\<lambda>(q, s). q # s) qs)"

definition wf_segs :: "string \<Rightarrow> (char \<times> string) list \<Rightarrow> bool" where
  "wf_segs s0 qs =
     (quote_free s0 \<and> list_all (\<lambda>(q, s). q \<in> set quote_chars \<and> quote_free s) qs)"

fun pass :: "string \<Rightarrow> string \<Rightarrow> (char \<times> string) list \<Rightarrow> (char \<times> string) list" where
  "pass v t [] = []"
| "pass v t [x] = [x]"
| "pass v t ((q, s) # (q', s') # rest) =
     (if s = v then (CHR 0x22, t) # (CHR 0x22, s') # pass v t rest
      else (q, s) # pass v t ((q', s') # rest))"

definition inner :: "(char \<times> string) list \<Rightarrow> string set" where
  "inner qs = set (map snd (butlast qs))"

fun adj :: "string \<Rightarrow> (char \<times> string) list \<Rightarrow> bool" where
  "adj w (a # b # c # rest) = ((snd a = w \<and> snd b = w) \<or> adj w (b # c # rest))"
| "adj w qs = False"

fun passes :: "(string \<times> string) list \<Rightarrow> (char \<times> string) list \<Rightarrow> (char \<times> string) list" where
  "passes [] qs = qs"
| "passes ((v, t) # rest) qs = passes rest (pass v t qs)"


section \<open>The predicate on activation keys, and the inputs of the examples\<close>

text \<open>The keys a stored user can hold: none yet (the empty default), a digest, or the
  sentinel.\<close>

definition key_ok :: "string \<Rightarrow> bool" where
  "key_ok k = (k = [] \<or> hex40 k \<or> k = ACTIVATED)"

fun event_user :: "'e event \<Rightarrow> user" where
  "event_user (Persisted u) = u"
| "event_user (Inactive_user_created u x) = u"
| "event_user (User_activated u) = u"

text \<open>Every row of the table, and every user that was written or announced, has such a
  key.\<close>

definition keys_ok :: "'e user_db \<Rightarrow> bool" where
  "keys_ok db =
     (list_all (\<lambda>u. key_ok (activation_key u)) (user_rows db) \<and>
      list_all (\<lambda>ev. key_ok (activation_key (event_user ev))) (trace db))"

text \<open>A framework to run the examples with: emails are kept as they are, every
  password hashes to \<open>!\<close>, and the digest of a text is its length.\<close>

definition example_framework :: framework where
  "example_framework =
     \<lparr>normalize_email = (\<lambda>e. e), make_password = (\<lambda>p. ''!''),
      sha1 = (\<lambda>s. word_of_nat (length s))\<rparr>"

definition example_settings :: settings where
  "example_settings =
     \<lparr>ACCOUNT_ACTIVATION_DAYS = 7, PROJECT_NAME = ''Acme'',
      PROJECT_CONTACT = ''contact@acme.test'',
      DEFAULT_TRANSACTIONAL_EMAIL = [(''contact'', True)]\<rparr>"

definition example_key :: string where
  "example_key = ''0123456789abcdef0123456789abcdef01234567''"

text \<open>An inactive user, created at time 0, whose key is pending.\<close>

definition example_user :: user where
  "example_user =
     \<lparr>pk = Some 1, password = ''!'', is_superuser = False, email = ''ann@acme.test'',
      created = 0, is_active = False, is_staff = False, activation_key = example_key\<rparr>"

definition example_db :: "unit user_db" where
  "example_db = \<lparr>user_rows = [example_user], trace = []\<rparr>"

definition empty_db :: "unit user_db" where
  "empty_db = \<lparr>user_rows = [], trace = []\<rparr>"

definition example_inactive :: user where
  "example_inactive =
     \<lparr>pk = Some 1, password = ''!'', is_superuser = False, email = ''ann@acme.test'',
      created = 5, is_active = False, is_staff = False,
      activation_key = get_activation_key example_framework ''0.25'' ''ann@acme.test''\<rparr>"

definition example_page :: page where
  "example_page =
     \<lparr>pk = None, name = [], url = ''/about/team'', title = ''Team'', content = [],
      template_name = [], registration_required = False\<rparr>"




definition example_table :: "(string \<times> string) list" where
  "example_table = load_settings [(''project_name'', ''Acme'')]"

section \<open>Lemmas on the table\<close>

lemma fold_max_ge: "a \<le> fold max xs (a::nat)"
  by (induction xs arbitrary: a) (auto intro: order_trans [OF max.cobounded2])

lemma fold_max_mem: "x \<in> set xs \<Longrightarrow> x \<le> fold max xs (a::nat)"
proof (induction xs arbitrary: a)
  case Nil
  then show ?case by simp
next
  case (Cons y ys)
  show ?case
  proof (cases "x = y")
    case True
    have "y \<le> max y a" by simp
    also have "\<dots> \<le> fold max ys (max y a)" by (rule fold_max_ge)
    finally show ?thesis using True by simp
  next
    case False
    with Cons.prems have "x \<in> set ys" by simp
    then show ?thesis using Cons.IH by simp
  qed
qed

text \<open>The key handed out to a new row is the key of no row.\<close>

lemma next_pk_fresh: "r \<in> set rows \<Longrightarrow> pk r \<noteq> Some (next_pk rows)"
proof
  assume r: "r \<in> set rows" and eq: "pk r = Some (next_pk rows)"
  from r have "(case pk r of None \<Rightarrow> 0 | Some i \<Rightarrow> i)
      \<in> set (map (\<lambda>r. case pk r of None \<Rightarrow> 0 | Some i \<Rightarrow> i) rows)"
    by simp
  from fold_max_mem [OF this, of 0] eq show False
    by (simp add: next_pk_def)
qed

lemma save_base_Inl:
  "save_base clash obj rows = (Inl e, rows') \<Longrightarrow> e = IntegrityError \<and> rows' = rows"
  by (auto simp: save_base_def db_insert_def db_update_def split: option.splits if_splits)

lemma save_base_Inr:
  "save_base clash obj rows = (Inr (obj', c), rows') \<Longrightarrow>
     (c \<and> pk obj = None \<and> obj' = obj\<lparr>pk := Some (next_pk rows)\<rparr> \<and> rows' = rows @ [obj']) \<or>
     (c \<and> pk obj \<noteq> None \<and> obj' = obj \<and> rows' = rows @ [obj']) \<or>
     (\<not> c \<and> pk obj \<noteq> None \<and> obj' = obj \<and> list_ex (\<lambda>r. pk r = pk obj) rows \<and>
      rows' = map (\<lambda>r. if pk r = pk obj then obj else r) rows)"
  by (auto simp: save_base_def db_insert_def db_update_def split: option.splits if_splits)

lemma db_update_after_insert:
  assumes "\<forall>r\<in>set rows. pk r \<noteq> pk obj" and "pk obj' = pk obj"
  shows "map (\<lambda>r. if pk r = pk obj' then obj' else r) (rows @ [obj]) = rows @ [obj']"
  using assms by (induction rows) auto

section \<open>Lemmas on users\<close>

lemma User_save_Inl: "User_save u db = (Inl e, db') \<Longrightarrow> db' = db"
  by (auto simp: User_save_def split: prod.splits sum.splits)

lemma User_save_Inr:
  assumes "User_save u db = (Inr u', db')"
  shows "activation_key u' = activation_key u"
    and "trace db' = trace db @ [Persisted u']"
    and "set (user_rows db') \<subseteq> insert u' (set (user_rows db))"
proof -
  from assms obtain c rows' where
    sb: "save_base (\<lambda>a b. email a = email b) u (user_rows db) = (Inr (u', c), rows')"
    and db': "db' = db\<lparr>user_rows := rows', trace := trace db @ [Persisted u']\<rparr>"
    by (auto simp: User_save_def split: prod.splits sum.splits)
  from save_base_Inr [OF sb] show "activation_key u' = activation_key u" by auto
  from db' show "trace db' = trace db @ [Persisted u']" by simp
  from save_base_Inr [OF sb] db' show "set (user_rows db') \<subseteq> insert u' (set (user_rows db))"
    by auto
qed

lemma User_save_keys_ok:
  assumes "keys_ok db" and "key_ok (activation_key u)"
  shows "keys_ok (snd (User_save u db))"
proof (cases "User_save u db")
  case (Pair res db')
  show ?thesis
  proof (cases res)
    case (Inl e)
    with Pair assms(1) show ?thesis using User_save_Inl [of u db e db'] by simp
  next
    case (Inr u')
    with Pair have s: "User_save u db = (Inr u', db')" by simp
    from User_save_Inr [OF s] assms have "keys_ok db'"
      by (auto simp: keys_ok_def list_all_iff)
    with Pair show ?thesis by simp
  qed
qed

text \<open>The digest in hexadecimal has forty characters of the class of \<open>SHA1_RE\<close>.\<close>

lemma hex_digit_in_class: "hex_digit n \<in> set hex_class"
proof -
  have "n mod 16 < length ''0123456789abcdef''" by simp
  then have "''0123456789abcdef'' ! (n mod 16) \<in> set ''0123456789abcdef''"
    by (rule nth_mem)
  then show ?thesis by (auto simp: hex_digit_def hex_class_def)
qed

lemma hexdigest_hex40: "hex40 (hexdigest w)"
  by (simp add: hex40_def hexdigest_def list_all_iff hex_digit_in_class)

lemma get_activation_key_hex40: "hex40 (get_activation_key fw rnd e)"
  by (simp add: get_activation_key_def Let_def hexdigest_hex40)

lemma ACTIVATED_no_match: "\<not> SHA1_RE_search ACTIVATED"
  by (simp add: SHA1_RE_search_def hex40_def ACTIVATED_def)

lemma example_key_match: "SHA1_RE_search example_key"
  by (simp add: SHA1_RE_search_def hex40_def example_key_def hex_class_def)

text \<open>The lookup that \<open>activation_key_expired\<close> starts with finds nothing.\<close>

lemma User_getattr_ACTIVATED: "User_getattr u ''ACTIVATED'' = None"
  by (simp add: User_getattr_def)

lemma activation_key_expired_AttributeError:
  "activation_key_expired cfg now u = Inl AttributeError"
  by (simp add: activation_key_expired_def User_getattr_ACTIVATED)

text \<open>What \<open>activate_user\<close> does with a key that does not match the pattern, with the
  sentinel, and with a key that no row holds; and that it never changes the state.\<close>

lemma activate_user_malformed:
  "\<not> SHA1_RE_search key \<Longrightarrow> activate_user cfg now key db = (Inr None, db)"
  by (simp add: activate_user_def)

lemma activate_user_sentinel: "activate_user cfg now ACTIVATED db = (Inr None, db)"
  by (rule activate_user_malformed [OF ACTIVATED_no_match])

lemma activate_user_unknown:
  "filter (\<lambda>u. activation_key u = key) (user_rows db) = [] \<Longrightarrow>
     activate_user cfg now key db = (Inr None, db)"
  by (simp add: activate_user_def get_by_activation_key_def)

lemma activate_user_state: "snd (activate_user cfg now key db) = db"
  by (auto simp: activate_user_def activation_key_expired_AttributeError
      split: sum.splits error.splits)

text \<open>Every outcome of \<open>activate_user\<close>: no value, or one of two errors.\<close>

lemma activate_user_outcomes:
  "activate_user cfg now key db =
     (if \<not> SHA1_RE_search key then (Inr None, db)
      else case filter (\<lambda>u. activation_key u = key) (user_rows db) of
             [] \<Rightarrow> (Inr None, db)
           | [u] \<Rightarrow> (Inl AttributeError, db)
           | _ \<Rightarrow> (Inl MultipleObjectsReturned, db))"
  by (simp add: activate_user_def get_by_activation_key_def activation_key_expired_AttributeError
      split: list.splits)

text \<open>A user that \<open>create_user\<close> returns has no key yet.\<close>

lemma create_user_Inr:
  assumes "create_user fw now email' password' act db = (Inr u, db')"
  shows "activation_key u = []" and "is_active u = act"
    and "User_save \<lparr>pk = None, password = make_password fw password', is_superuser = False,
             email = normalize_email fw (the email'), created = now, is_active = act,
             is_staff = False, activation_key = []\<rparr> db = (Inr u, db')"
proof -
  from assms obtain e where e: "email' = Some e" "e \<noteq> []"
    by (auto simp: create_user_def split: option.splits if_splits)
  with assms show s: "User_save \<lparr>pk = None, password = make_password fw password',
      is_superuser = False, email = normalize_email fw (the email'), created = now,
      is_active = act, is_staff = False, activation_key = []\<rparr> db = (Inr u, db')"
    by (simp add: create_user_def)
  from User_save_Inr(1) [OF s] show "activation_key u = []" by simp
  from s show "is_active u = act"
    by (auto simp: User_save_def dest!: save_base_Inr split: prod.splits sum.splits)
qed

lemma create_user_keys_ok:
  "keys_ok db \<Longrightarrow> keys_ok (snd (create_user fw now email' password' act db))"
  by (auto simp: create_user_def key_ok_def intro: User_save_keys_ok split: option.splits)

lemma create_superuser_keys_ok:
  assumes "keys_ok db"
  shows "keys_ok (snd (create_superuser fw now email' password' db))"
proof (cases "create_user fw now email' password' True db")
  case (Pair res db')
  from create_user_keys_ok [OF assms, of fw now email' password' True] Pair
  have ok: "keys_ok db'" by simp
  show ?thesis
  proof (cases res)
    case (Inl e)
    with Pair ok show ?thesis by (simp add: create_superuser_def)
  next
    case (Inr u)
    with Pair have "activation_key u = []" using create_user_Inr(1) by blast
    then have "key_ok (activation_key (u\<lparr>is_superuser := True, is_staff := True\<rparr>))"
      by (simp add: key_ok_def)
    from User_save_keys_ok [OF ok this] Pair Inr show ?thesis
      by (simp add: create_superuser_def)
  qed
qed

lemma trace_update_keys_ok:
  "keys_ok db \<Longrightarrow> key_ok (activation_key (event_user ev)) \<Longrightarrow>
     keys_ok (db\<lparr>trace := trace db @ [ev]\<rparr>)"
  by (simp add: keys_ok_def)

lemma create_inactive_user_keys_ok:
  assumes "keys_ok db"
  shows "keys_ok (snd (create_inactive_user fw now rnd email' password' extra_info db))"
proof (cases "create_user fw now email' password' False db")
  case (Pair res db')
  from create_user_keys_ok [OF assms, of fw now email' password' False] Pair
  have ok: "keys_ok db'" by simp
  show ?thesis
  proof (cases res)
    case (Inl e)
    with Pair ok show ?thesis by (simp add: create_inactive_user_def)
  next
    case (Inr u)
    let ?u = "u\<lparr>activation_key := get_activation_key fw rnd (email u)\<rparr>"
    have k: "key_ok (activation_key ?u)"
      by (simp add: key_ok_def get_activation_key_hex40)
    from User_save_keys_ok [OF ok k] have ok2: "keys_ok (snd (User_save ?u db'))" .
    show ?thesis
    proof (cases "User_save ?u db'")
      case p2: (Pair res2 db2)
      show ?thesis
      proof (cases res2)
        case (Inl e)
        with Pair Inr p2 ok2 show ?thesis by (simp add: create_inactive_user_def)
      next
        case r2: (Inr u2)
        with p2 have "activation_key u2 = activation_key ?u"
          using User_save_Inr(1) by blast
        with k have "key_ok (activation_key (event_user (Inactive_user_created u2 extra_info)))"
          by simp
        from trace_update_keys_ok [OF _ this, of db2] ok2 p2
        have "keys_ok (db2\<lparr>trace := trace db2 @ [Inactive_user_created u2 extra_info]\<rparr>)"
          by simp
        with Pair Inr p2 r2 show ?thesis by (simp add: create_inactive_user_def)
      qed
    qed
  qed
qed

lemma example_db_keys_ok: "keys_ok example_db"
  by (simp add: keys_ok_def key_ok_def example_db_def example_user_def example_key_def
      hex40_def hex_class_def)

lemma create_inactive_user_example:
  "create_inactive_user example_framework 5 ''0.25'' (Some ''ann@acme.test'') (Some ''pw'')
     None empty_db
   = (Inr example_inactive,
      \<lparr>user_rows = [example_inactive],
       trace = [Persisted (example_inactive\<lparr>activation_key := []\<rparr>),
                Persisted example_inactive, Inactive_user_created example_inactive None]\<rparr>)"
  by (simp add: create_inactive_user_def create_user_def User_save_def save_base_def
      db_insert_def db_update_def next_pk_def example_framework_def empty_db_def
      example_inactive_def)

section \<open>Lemmas on pages\<close>

lemma dropWhile_all_iff: "(\<forall>c\<in>set (dropWhile P s). P c) = (\<forall>c\<in>set s. P c)"
  by (induction s) auto

lemma strip_char_empty: "(strip_char x s = []) = (\<forall>c\<in>set s. c = x)"
  by (simp add: strip_char_def dropWhile_all_iff)

lemma derived_name_nonempty:
  "(strip_char (CHR ''-'') (replace_char (CHR ''/'') (CHR ''-'') u) \<noteq> [])
     = list_ex (\<lambda>c. c \<noteq> CHR ''/'' \<and> c \<noteq> CHR ''-'') u"
  by (auto simp: strip_char_empty replace_char_def list_ex_iff)

lemma Page_save_example:
  "Page_save example_page []
     = (Inr (example_page\<lparr>pk := Some 1, name := ''about-team''\<rparr>, True),
        [example_page\<lparr>pk := Some 1, name := ''about-team''\<rparr>])"
  by (simp add: Page_save_def example_page_def save_base_def db_insert_def next_pk_def
      strip_char_def replace_char_def)

section \<open>Lemmas on the substitution\<close>

lemma example_table_eq: "example_table = [(''Acme'', ''{{cookiecutter.project_name}}'')]"
  by (simp add: example_table_def load_settings_def placeholder_def)

lemmas re_eval = QUOTED_def re_sub_def re_template_def special_chars_def class_special_def

text \<open>Every entry of the table is tried on the line, whichever quotes the line uses; the
  placeholder is put in double quotes.\<close>

lemma rewrite_line_all_entries:
  \<open>rewrite_line
     [(''Acme'', ''{{cookiecutter.project_name}}''), (''acme'', ''{{cookiecutter.repo_name}}'')]
     ''NAME, PKG = "Acme", 'acme' ''
   = Some ''NAME, PKG = "{{cookiecutter.project_name}}", "{{cookiecutter.repo_name}}" ''\<close>
  by (simp add: re_eval)

text \<open>Where the pattern matches nowhere, \<open>re.sub\<close> gives the text back.\<close>

lemma sub_scan_no_match: "\<not> re_search p s \<Longrightarrow> sub_scan p r s = s"
proof (induction s)
  case Nil
  then show ?case by (cases p) auto
next
  case (Cons c cs)
  then show ?case by (auto split: option.splits)
qed

text \<open>A line in which no pattern of the table finds a quoted value is left as it is.\<close>

lemma rewrite_line_fixed_point:
  assumes "rewrite_line table l0 = Some l"
    and "list_all (\<lambda>(key, value). \<not> quoted_occurs key l) table"
  shows "rewrite_line table l = Some l"
  using assms
proof (induction table arbitrary: l0)
  case Nil
  then show ?case by simp
next
  case (Cons kv rest)
  obtain key "value" where kv: "kv = (key, value)" by (cases kv)
  from Cons.prems(1) kv obtain p r l1 where
    p: "re_parse (QUOTED key) = Some p"
    and r: "re_template ([CHR 0x22] @ value @ [CHR 0x22]) = Some r"
    and l1: "rewrite_line rest l1 = Some l"
    by (auto simp: re_sub_def split: option.splits)
  from Cons.prems(2) kv p have "\<not> re_search p l"
    by (simp add: quoted_occurs_def)
  then have "sub_scan p r l = l" by (rule sub_scan_no_match)
  with p r have "re_sub (QUOTED key) ([CHR 0x22] @ value @ [CHR 0x22]) l = Some l"
    by (simp add: re_sub_def)
  moreover from Cons.IH [OF l1] Cons.prems(2) have "rewrite_line rest l = Some l"
    by simp
  ultimately show ?case using kv by simp
qed

section \<open>Lemmas on the line as segments between quotes\<close>

text \<open>The pattern of a plain value is read as the value between two quote classes.\<close>

lemma re_parse_literal:
  "list_all (\<lambda>c. c \<notin> set special_chars) v \<Longrightarrow>
     re_parse (v @ rest) = map_option ((@) (map Lit v)) (re_parse rest)"
proof (induction v)
  case Nil
  show ?case by (simp add: option.map_ident)
next
  case (Cons c v)
  then have c: "c \<noteq> CHR ''[''" "c \<noteq> CHR ''.''" "c \<notin> set special_chars"
    by (auto simp: special_chars_def)
  with Cons show ?case by (simp add: option.map_comp comp_def)
qed

lemma re_parse_QUOTED: "plain v \<Longrightarrow> re_parse (QUOTED v) = Some (quoted_pattern v)"
proof -
  assume "plain v"
  then have lit: "list_all (\<lambda>c. c \<notin> set special_chars) v"
    by (simp add: plain_def list_all_iff)
  have tail: \<open>re_parse ''["']'' = Some [Cls quote_chars]\<close>
    by (simp add: class_special_def quote_chars_def)
  have \<open>re_parse (QUOTED v) = map_option ((#) (Cls quote_chars)) (re_parse (v @ ''["']''))\<close>
    by (simp add: QUOTED_def class_special_def quote_chars_def)
  with re_parse_literal [OF lit, of \<open>''["']''\<close>] tail show ?thesis
    by (simp add: quoted_pattern_def)
qed

lemma re_template_ok:
  "placeholder_ok t \<Longrightarrow> re_template ([CHR 0x22] @ t @ [CHR 0x22]) = Some ([CHR 0x22] @ t @ [CHR 0x22])"
  by (auto simp: re_template_def placeholder_ok_def list_all_iff)

lemma join_Nil [simp]: "join s0 [] = s0"
  by (simp add: join_def)

lemma join_Cons: "join s0 ((q, s) # qs) = s0 @ q # join s qs"
  by (simp add: join_def)

lemma join_Cons_char: "join (c # s0) qs = c # join s0 qs"
  by (simp add: join_def)

lemma split_exists: "\<exists>s0 qs. wf_segs s0 qs \<and> line = join s0 qs"
proof (induction line)
  case Nil
  have "wf_segs [] [] \<and> [] = join [] []" by (simp add: wf_segs_def quote_free_def)
  then show ?case by blast
next
  case (Cons c line)
  then obtain s0 qs where wf: "wf_segs s0 qs" and l: "line = join s0 qs" by blast
  show ?case
  proof (cases "c \<in> set quote_chars")
    case True
    with wf have "wf_segs [] ((c, s0) # qs)" by (simp add: wf_segs_def quote_free_def)
    moreover from l have "c # line = join [] ((c, s0) # qs)" by (simp add: join_Cons)
    ultimately show ?thesis by blast
  next
    case False
    with wf have "wf_segs (c # s0) qs" by (simp add: wf_segs_def quote_free_def)
    moreover from l have "c # line = join (c # s0) qs" by (simp add: join_Cons_char)
    ultimately show ?thesis by blast
  qed
qed

text \<open>Literal text matches up to the closing quote exactly when it is the segment.\<close>

lemma match_literal:
  assumes "quote_free v" and "quote_free s" and "t = [] \<or> hd t \<in> set quote_chars"
  shows "match_here (map Lit v @ Cls quote_chars # p) (s @ t)
           = (if v = s then (case t of [] \<Rightarrow> None | c # t' \<Rightarrow> match_here p t') else None)"
  using assms
proof (induction v arbitrary: s)
  case Nil
  then show ?case by (cases s; cases t) (auto simp: quote_free_def)
next
  case (Cons x v)
  show ?case
  proof (cases s)
    case Nil
    with Cons.prems show ?thesis by (cases t) (auto simp: quote_free_def)
  next
    case (Cons a s')
    with Cons.prems Cons.IH [of s'] show ?thesis by (auto simp: quote_free_def)
  qed
qed

lemma join_split: "join s qs = s @ join [] qs"
  by (simp add: join_def)

lemma join_Nil_tail:
  "wf_segs s qs \<Longrightarrow> join [] qs = [] \<or> hd (join [] qs) \<in> set quote_chars"
  by (cases qs) (auto simp: join_def wf_segs_def)

text \<open>A match starts at a quote, takes the segment behind it and the next quote.\<close>

lemma match_at_quote:
  assumes "quote_free v" and "wf_segs s0 ((q, s) # qs)"
  shows "match_here (quoted_pattern v) (q # join s qs)
           = (if s = v then (case qs of [] \<Rightarrow> None | (q', s') # rest \<Rightarrow> Some (join s' rest))
              else None)"
proof -
  from assms(2) have q: "q \<in> set quote_chars" and s: "quote_free s" and wf: "wf_segs s qs"
    by (auto simp: wf_segs_def)
  have tl: "join [] qs = [] \<or> hd (join [] qs) \<in> set quote_chars"
    by (rule join_Nil_tail [OF wf])
  have "match_here (quoted_pattern v) (q # join s qs)
      = match_here (map Lit v @ Cls quote_chars # []) (s @ join [] qs)"
    using q by (simp add: quoted_pattern_def join_split [of s qs])
  also have "\<dots> = (if v = s then (case join [] qs of [] \<Rightarrow> None | c # t' \<Rightarrow> Some t') else None)"
    using match_literal [OF assms(1) s tl, of "[]"] by (simp split: list.splits)
  also have "\<dots> = (if s = v then (case qs of [] \<Rightarrow> None | (q', s') # rest \<Rightarrow> Some (join s' rest))
              else None)"
    by (cases qs) (auto simp: join_def split: list.splits)
  finally show ?thesis .
qed

lemma match_not_quote:
  "c \<notin> set quote_chars \<Longrightarrow> match_here (quoted_pattern v) (c # rest) = None"
  by (simp add: quoted_pattern_def)

lemma quoted_pattern_not_Nil [simp]: "quoted_pattern v \<noteq> []"
  by (simp add: quoted_pattern_def)

lemma wf_segs_tail: "wf_segs s0 ((q, s) # qs) \<Longrightarrow> wf_segs s qs"
  by (simp add: wf_segs_def)

lemma wf_segs_tail2: "wf_segs s0 ((q, s) # (q', s') # qs) \<Longrightarrow> wf_segs s' qs"
  by (simp add: wf_segs_def)

lemma sub_scan_prefix:
  "quote_free s0 \<Longrightarrow>
     sub_scan (quoted_pattern v) r (s0 @ x) = s0 @ sub_scan (quoted_pattern v) r x"
proof (induction s0)
  case Nil
  show ?case by simp
next
  case (Cons c s0)
  then have c: "c \<notin> set quote_chars" and s0: "quote_free s0"
    by (simp_all add: quote_free_def)
  from match_not_quote [OF c] Cons.IH [OF s0] show ?case by simp
qed

lemma join_two: "join [] ((q, s) # qs) = q # s @ join [] qs"
  by (simp add: join_def)

lemma sub_scan_join_Nil:
  "quote_free v \<Longrightarrow> wf_segs s0 qs \<Longrightarrow>
     sub_scan (quoted_pattern v) ([CHR 0x22] @ t @ [CHR 0x22]) (join [] qs) = join [] (pass v t qs)"
proof (induction v t qs arbitrary: s0 rule: pass.induct)
  case (3 v t q s q' s' rest)
  let ?r = "[CHR 0x22] @ t @ [CHR 0x22]"
  note qv = "3.prems"(1) and wf = "3.prems"(2)
  have wf': "wf_segs s' rest" using wf by (rule wf_segs_tail2)
  have wf1: "wf_segs s ((q', s') # rest)" using wf by (rule wf_segs_tail)
  have qf: "quote_free s" "quote_free s'" using wf by (simp_all add: wf_segs_def)
  have m: "match_here (quoted_pattern v) (q # join s ((q', s') # rest))
      = (if s = v then Some (join s' rest) else None)"
    using match_at_quote [OF qv wf] by (cases "s = v") simp_all
  have start: "join [] ((q, s) # (q', s') # rest) = q # join s ((q', s') # rest)"
    by (simp add: join_def)
  show ?case
  proof (cases "s = v")
    case True
    have "sub_scan (quoted_pattern v) ?r (join [] ((q, s) # (q', s') # rest))
        = ?r @ sub_scan (quoted_pattern v) ?r (join s' rest)"
      unfolding start using m True by simp
    also have "join s' rest = s' @ join [] rest" by (rule join_split)
    also have "sub_scan (quoted_pattern v) ?r (s' @ join [] rest)
        = s' @ sub_scan (quoted_pattern v) ?r (join [] rest)"
      by (rule sub_scan_prefix [OF qf(2)])
    also have "sub_scan (quoted_pattern v) ?r (join [] rest) = join [] (pass v t rest)"
      using "3.IH"(1) [OF True qv wf'] by simp
    finally show ?thesis using True by (simp add: join_two)
  next
    case False
    have "sub_scan (quoted_pattern v) ?r (join [] ((q, s) # (q', s') # rest))
        = q # sub_scan (quoted_pattern v) ?r (join s ((q', s') # rest))"
      unfolding start using m False by simp
    also have "join s ((q', s') # rest) = s @ join [] ((q', s') # rest)" by (rule join_split)
    also have "sub_scan (quoted_pattern v) ?r (s @ join [] ((q', s') # rest))
        = s @ sub_scan (quoted_pattern v) ?r (join [] ((q', s') # rest))"
      by (rule sub_scan_prefix [OF qf(1)])
    also have "sub_scan (quoted_pattern v) ?r (join [] ((q', s') # rest))
        = join [] (pass v t ((q', s') # rest))"
      using "3.IH"(2) [OF False qv wf1] by simp
    finally show ?thesis using False by (simp add: join_two)
  qed
next
  case (1 v t)
  then show ?case by simp
next
  case (2 v t x)
  obtain q s where x: "x = (q, s)" by (cases x)
  let ?r = "[CHR 0x22] @ t @ [CHR 0x22]"
  note qv = "2.prems"(1)
  from "2.prems"(2) x have wf: "wf_segs s0 ((q, s) # [])" and qf: "quote_free s"
    by (simp_all add: wf_segs_def)
  have m: "match_here (quoted_pattern v) (q # join s []) = None"
    using match_at_quote [OF qv wf] by (cases "s = v") simp_all
  have "sub_scan (quoted_pattern v) ?r (q # s) = q # sub_scan (quoted_pattern v) ?r (s @ [])"
    using m by simp
  also have "sub_scan (quoted_pattern v) ?r (s @ []) = s @ sub_scan (quoted_pattern v) ?r []"
    by (rule sub_scan_prefix [OF qf])
  finally show ?case using x by (simp add: join_def)
qed

lemma sub_scan_join:
  assumes "quote_free v" and "wf_segs s0 qs"
  shows "sub_scan (quoted_pattern v) ([CHR 0x22] @ t @ [CHR 0x22]) (join s0 qs)
           = join s0 (pass v t qs)"
proof -
  from assms(2) have qf: "quote_free s0" by (simp add: wf_segs_def)
  have "join s0 qs = s0 @ join [] qs" by (rule join_split)
  then show ?thesis
    using sub_scan_prefix [OF qf] sub_scan_join_Nil [OF assms]
    by (simp add: join_split [of s0 "pass v t qs"])
qed

lemma wf_segs_pass:
  "quote_free t \<Longrightarrow> wf_segs s0 qs \<Longrightarrow> wf_segs s0 (pass v t qs)"
  by (induction v t qs rule: pass.induct) (auto simp: wf_segs_def quote_chars_def)

lemma inner_Nil [simp]: "inner [] = {}"
  by (simp add: inner_def)

lemma inner_single [simp]: "inner [x] = {}"
  by (simp add: inner_def)

lemma inner_Cons: "qs \<noteq> [] \<Longrightarrow> inner (x # qs) = insert (snd x) (inner qs)"
  by (simp add: inner_def)

lemma pass_Nil_iff [simp]: "(pass v t qs = []) = (qs = [])"
  by (induction v t qs rule: pass.induct) auto

text \<open>A match somewhere in the line is a segment between two quotes.\<close>

lemma re_search_prefix:
  "quote_free s0 \<Longrightarrow> re_search (quoted_pattern v) (s0 @ x) = re_search (quoted_pattern v) x"
proof (induction s0)
  case Nil
  show ?case by simp
next
  case (Cons c s0)
  then have c: "c \<notin> set quote_chars" and s0: "quote_free s0"
    by (simp_all add: quote_free_def)
  from match_not_quote [OF c] Cons.IH [OF s0] show ?case by simp
qed

lemma re_search_join_Nil:
  "quote_free v \<Longrightarrow> wf_segs s0 qs \<Longrightarrow> re_search (quoted_pattern v) (join [] qs) \<Longrightarrow>
     v \<in> inner qs"
proof (induction qs arbitrary: s0)
  case Nil
  then show ?case by (simp add: quoted_pattern_def)
next
  case (Cons x qs)
  obtain q s where x: "x = (q, s)" by (cases x)
  from Cons.prems(2) x have wf: "wf_segs s0 ((q, s) # qs)" by simp
  then have wf': "wf_segs s qs" by (rule wf_segs_tail)
  then have qf: "quote_free s" by (simp add: wf_segs_def)
  have m: "match_here (quoted_pattern v) (q # join s qs)
      = (if s = v then (case qs of [] \<Rightarrow> None | (q', s') # rest \<Rightarrow> Some (join s' rest))
         else None)"
    by (rule match_at_quote [OF Cons.prems(1) wf])
  from Cons.prems(3) x
  have "match_here (quoted_pattern v) (q # join s qs) \<noteq> None
      \<or> re_search (quoted_pattern v) (join s qs)"
    by (simp add: join_Cons)
  then show ?case
  proof
    assume "match_here (quoted_pattern v) (q # join s qs) \<noteq> None"
    with m have "s = v" and "qs \<noteq> []" by (auto split: if_splits list.splits)
    then show ?thesis using x by (simp add: inner_Cons)
  next
    assume "re_search (quoted_pattern v) (join s qs)"
    then have "re_search (quoted_pattern v) (join [] qs)"
      using re_search_prefix [OF qf, of v "join [] qs"] by (simp add: join_split [of s qs])
    from Cons.IH [OF Cons.prems(1) wf' this] have v: "v \<in> inner qs" .
    then have "qs \<noteq> []" by auto
    with v show ?thesis by (simp add: inner_Cons)
  qed
qed

lemma re_search_join:
  assumes "quote_free v" and "wf_segs s0 qs" and "re_search (quoted_pattern v) (join s0 qs)"
  shows "v \<in> inner qs"
proof -
  from assms(2) have qf: "quote_free s0" by (simp add: wf_segs_def)
  from assms(3) have "re_search (quoted_pattern v) (join [] qs)"
    using re_search_prefix [OF qf, of v "join [] qs"] by (simp add: join_split [of s0 qs])
  then show ?thesis by (rule re_search_join_Nil [OF assms(1,2)])
qed

text \<open>A pass keeps a segment or puts the placeholder in its place.\<close>

lemma pass_rel: "list_all2 (\<lambda>a b. snd b = snd a \<or> snd b = t) qs (pass v t qs)"
  by (induction v t qs rule: pass.induct) (auto simp: list_all2_refl)

lemma rel_inner:
  "list_all2 (\<lambda>a b. snd b = snd a \<or> snd b = t) xs ys \<Longrightarrow> inner ys \<subseteq> insert t (inner xs)"
proof (induction xs ys rule: list_all2_induct)
  case Nil
  show ?case by simp
next
  case (Cons x xs y ys)
  from Cons.hyps(2) have len: "length xs = length ys" by (rule list_all2_lengthD)
  show ?case
  proof (cases "xs = []")
    case True
    with len show ?thesis by simp
  next
    case False
    with len have "ys \<noteq> []" by auto
    with False Cons show ?thesis by (auto simp: inner_Cons)
  qed
qed

lemma rel_adj:
  "list_all2 (\<lambda>a b. snd b = snd a \<or> snd b = t) xs ys \<Longrightarrow> w \<noteq> t \<Longrightarrow> adj w ys \<Longrightarrow> adj w xs"
proof (induction w ys arbitrary: xs rule: adj.induct)
  case (1 w a b c rest)
  from "1.prems"(1) obtain a' b' c' rest' where
    xs: "xs = a' # b' # c' # rest'"
    and ra: "snd a = snd a' \<or> snd a = t" and rb: "snd b = snd b' \<or> snd b = t"
    and rest: "list_all2 (\<lambda>a b. snd b = snd a \<or> snd b = t) (b' # c' # rest') (b # c # rest)"
    by (auto simp: list_all2_Cons2)
  from "1.prems"(3) have "(snd a = w \<and> snd b = w) \<or> adj w (b # c # rest)" by simp
  then show ?case
  proof
    assume "snd a = w \<and> snd b = w"
    with ra rb "1.prems"(2) have "snd a' = w \<and> snd b' = w" by auto
    then show ?thesis using xs by simp
  next
    assume "adj w (b # c # rest)"
    from "1.IH" [OF rest "1.prems"(2) this] show ?thesis using xs by simp
  qed
qed simp_all

lemma adj_Cons: "adj w qs \<Longrightarrow> adj w (x # qs)"
  by (cases "(w, qs)" rule: adj.cases) auto

lemma pass_removes:
  "\<not> adj v qs \<Longrightarrow> v \<noteq> t \<Longrightarrow> v \<notin> inner (pass v t qs)"
proof (induction v t qs rule: pass.induct)
  case (3 v t q s q' s' rest)
  show ?case
  proof (cases "s = v")
    case True
    have nadj: "\<not> adj v rest"
      using "3.prems"(1) adj_Cons [of v rest "(q', s')", THEN adj_Cons, of "(q, s)"] by blast
    from "3.IH"(1) [OF True nadj "3.prems"(2)] have ih: "v \<notin> inner (pass v t rest)" .
    show ?thesis
    proof (cases "rest = []")
      case True
      with \<open>s = v\<close> "3.prems"(2) show ?thesis by (simp add: inner_Cons)
    next
      case False
      then obtain c rest' where r: "rest = c # rest'" by (cases rest) auto
      with "3.prems"(1) True have "s' \<noteq> v" by auto
      with ih False True "3.prems"(2) show ?thesis by (simp add: inner_Cons)
    qed
  next
    case False
    have nadj: "\<not> adj v ((q', s') # rest)"
      using "3.prems"(1) adj_Cons [of v "(q', s') # rest" "(q, s)"] by blast
    from "3.IH"(2) [OF False nadj "3.prems"(2)] False show ?thesis
      by (simp add: inner_Cons)
  qed
qed simp_all

lemma plain_quote_free: "plain v \<Longrightarrow> quote_free v"
  by (simp add: plain_def quote_free_def list_all_iff)

lemma placeholder_ok_quote_free: "placeholder_ok t \<Longrightarrow> quote_free t"
  by (simp add: placeholder_ok_def quote_free_def list_all_iff)

lemma re_search_append: "re_search p x \<Longrightarrow> re_search p (y @ x)"
  by (induction y) simp_all

lemma match_double:
  assumes "quote_free w" and "wf_segs s0 ((q, w) # (q', w) # (q'', s'') # rest)"
  shows "match_here (Cls quote_chars # map Lit w @ Cls quote_chars # map Lit w @ [Cls quote_chars])
           (q # join w ((q', w) # (q'', s'') # rest)) \<noteq> None"
proof -
  from assms(2) have q: "q \<in> set quote_chars" "q' \<in> set quote_chars" "q'' \<in> set quote_chars"
    by (simp_all add: wf_segs_def)
  let ?t2 = "join [] ((q'', s'') # rest)"
  let ?t1 = "join [] ((q', w) # (q'', s'') # rest)"
  have t2: "?t2 = q'' # join s'' rest" by (simp add: join_def)
  have t1: "?t1 = q' # w @ ?t2" by (simp add: join_def)
  have h2: "?t2 = [] \<or> hd ?t2 \<in> set quote_chars" using q t2 by simp
  have h1: "?t1 = [] \<or> hd ?t1 \<in> set quote_chars" using q t1 by simp
  have inner_m: "match_here (map Lit w @ Cls quote_chars # []) (w @ ?t2) = Some (join s'' rest)"
    using match_literal [OF assms(1) assms(1) h2, of "[]"] t2 by simp
  have "match_here (map Lit w @ Cls quote_chars # (map Lit w @ [Cls quote_chars])) (w @ ?t1)
      = match_here (map Lit w @ [Cls quote_chars]) (w @ ?t2)"
    using match_literal [OF assms(1) assms(1) h1, of "map Lit w @ [Cls quote_chars]"] t1 by simp
  with inner_m q(1) show ?thesis
    by (simp add: join_split [of w "(q', w) # (q'', s'') # rest"])
qed

lemma adj_shares_quote:
  "adj w qs \<Longrightarrow> quote_free w \<Longrightarrow> wf_segs s0 qs \<Longrightarrow> shares_quote w (join s0 qs)"
proof (induction w qs arbitrary: s0 rule: adj.induct)
  case (1 w a b c rest)
  obtain q s where a: "a = (q, s)" by (cases a)
  obtain q' s' where b: "b = (q', s')" by (cases b)
  obtain q'' s'' where c: "c = (q'', s'')" by (cases c)
  let ?p = "Cls quote_chars # map Lit w @ Cls quote_chars # map Lit w @ [Cls quote_chars]"
  have j: "join s0 (a # b # c # rest) = s0 @ q # join s (b # c # rest)"
    using a by (simp add: join_Cons)
  from "1.prems"(1) have "(s = w \<and> s' = w) \<or> adj w (b # c # rest)" using a b by simp
  then have "re_search ?p (q # join s (b # c # rest))"
  proof
    assume sw: "s = w \<and> s' = w"
    with "1.prems"(3) a b c have wf: "wf_segs s0 ((q, w) # (q', w) # (q'', s'') # rest)" by simp
    from match_double [OF "1.prems"(2) wf] sw b c show ?thesis by simp
  next
    assume ad: "adj w (b # c # rest)"
    from "1.prems"(3) a have "wf_segs s (b # c # rest)" by (simp add: wf_segs_def)
    from "1.IH" [OF ad "1.prems"(2) this] show ?thesis by (simp add: shares_quote_def)
  qed
  then show ?case unfolding shares_quote_def j by (rule re_search_append)
qed simp_all

lemma rewrite_line_join:
  "list_all (\<lambda>(v, t). plain v \<and> placeholder_ok t) table \<Longrightarrow> wf_segs s0 qs \<Longrightarrow>
     rewrite_line table (join s0 qs) = Some (join s0 (passes table qs)) \<and>
     wf_segs s0 (passes table qs)"
proof (induction table arbitrary: qs)
  case Nil
  then show ?case by simp
next
  case (Cons e table)
  obtain v t where e: "e = (v, t)" by (cases e)
  from Cons.prems(1) e have v: "plain v" and t: "placeholder_ok t"
    and rest: "list_all (\<lambda>(v, t). plain v \<and> placeholder_ok t) table"
    by simp_all
  have wf: "wf_segs s0 (pass v t qs)"
    by (rule wf_segs_pass [OF placeholder_ok_quote_free [OF t] Cons.prems(2)])
  have "re_sub (QUOTED v) ([CHR 0x22] @ t @ [CHR 0x22]) (join s0 qs)
      = Some (join s0 (pass v t qs))"
    using re_parse_QUOTED [OF v] re_template_ok [OF t]
      sub_scan_join [OF plain_quote_free [OF v] Cons.prems(2), of t]
    by (simp add: re_sub_def)
  with Cons.IH [OF rest wf] e show ?case by simp
qed

lemma passes_clean:
  assumes "\<forall>(v, t)\<in>set table. t \<notin> W \<and> v \<in> W"
    and "\<forall>(v, t)\<in>set table. \<not> adj v qs"
    and "w \<in> W"
    and "w \<notin> inner qs \<or> w \<in> fst ` set table"
  shows "w \<notin> inner (passes table qs)"
  using assms
proof (induction table arbitrary: qs)
  case Nil
  then show ?case by simp
next
  case (Cons e table)
  obtain v t where e: "e = (v, t)" by (cases e)
  from Cons.prems(1) e have t: "t \<notin> W" and v: "v \<in> W"
    and rest: "\<forall>(v, t)\<in>set table. t \<notin> W \<and> v \<in> W"
    by auto
  from t v Cons.prems(3) have vt: "v \<noteq> t" and wt: "w \<noteq> t" by auto
  have nadj: "\<forall>(v', t')\<in>set table. \<not> adj v' (pass v t qs)"
  proof (clarify)
    fix v' t' assume m: "(v', t') \<in> set table" and a: "adj v' (pass v t qs)"
    from rest m t have "v' \<noteq> t" by auto
    from rel_adj [OF pass_rel this a] have "adj v' qs" .
    with Cons.prems(2) m show False by auto
  qed
  have "w \<notin> inner (pass v t qs) \<or> w \<in> fst ` set table"
  proof (cases "w \<in> fst ` set table")
    case True
    then show ?thesis by simp
  next
    case False
    with Cons.prems(4) e have "w \<notin> inner qs \<or> w = v" by auto
    then have "w \<notin> inner (pass v t qs)"
    proof
      assume "w \<notin> inner qs"
      with rel_inner [OF pass_rel [where t = t and qs = qs and v = v]] wt show ?thesis by auto
    next
      assume "w = v"
      moreover from Cons.prems(2) e have "\<not> adj v qs" by auto
      ultimately show ?thesis using pass_removes [OF _ vt] by simp
    qed
    then show ?thesis by simp
  qed
  from Cons.IH [OF rest nadj Cons.prems(3) this] e show ?case by simp
qed

lemma placeholder_ok_placeholder: "placeholder_ok k \<Longrightarrow> placeholder_ok (placeholder k)"
  by (simp add: placeholder_ok_def placeholder_def quote_chars_def)

lemma placeholder_not_plain: "\<not> plain (placeholder k)"
  by (simp add: plain_def placeholder_def special_chars_def)

lemma update_subset: "set (AList.update k v al) \<subseteq> insert (k, v) (set al)"
  by (induction al) auto

lemma load_settings_entries:
  "(v, t) \<in> set (fold (\<lambda>(k, v) d. AList.update v (placeholder k) d) manifest acc) \<Longrightarrow>
     (v, t) \<in> set acc \<or> (\<exists>k. (k, v) \<in> set manifest \<and> t = placeholder k)"
proof (induction manifest arbitrary: acc)
  case Nil
  then show ?case by simp
next
  case (Cons e manifest)
  obtain k v' where e: "e = (k, v')" by (cases e)
  from Cons.prems e
  have "(v, t) \<in> set (fold (\<lambda>(k, v) d. AList.update v (placeholder k) d) manifest
      (AList.update v' (placeholder k) acc))"
    by simp
  from Cons.IH [OF this]
  show ?case
  proof
    assume "(v, t) \<in> set (AList.update v' (placeholder k) acc)"
    then have "(v, t) \<in> insert (v', placeholder k) (set acc)"
      using update_subset [of v' "placeholder k" acc] by blast
    then show ?thesis using e by auto
  next
    assume "\<exists>k. (k, v) \<in> set manifest \<and> t = placeholder k"
    then show ?thesis by auto
  qed
qed

lemma load_settings_plain_table:
  assumes "list_all (\<lambda>(k, v). plain v \<and> placeholder_ok k) manifest"
  shows "plain_table (load_settings manifest)"
proof -
  have entry: "plain v \<and> placeholder_ok t \<and> \<not> plain t"
    if "(v, t) \<in> set (load_settings manifest)" for v t
  proof -
    from that load_settings_entries [of v t manifest "[]"]
    obtain k where k: "(k, v) \<in> set manifest" and t: "t = placeholder k"
      by (auto simp: load_settings_def)
    from assms k have "plain v" and "placeholder_ok k" by (auto simp: list_all_iff)
    with t show ?thesis by (simp add: placeholder_ok_placeholder placeholder_not_plain)
  qed
  show ?thesis
    unfolding plain_table_def list_all_iff
  proof (clarify, intro conjI)
    fix v t assume m: "(v, t) \<in> set (load_settings manifest)"
    from entry [OF m] show "plain v" and "placeholder_ok t" by simp_all
    show "t \<notin> set (map fst (load_settings manifest))"
    proof
      assume "t \<in> set (map fst (load_settings manifest))"
      then obtain t' where "(t, t') \<in> set (load_settings manifest)" by auto
      from entry [OF this] entry [OF m] show False by simp
    qed
  qed
qed

text \<open>Why a placeholder token must not be a concrete value of the table: the first run
  puts the token of \<open>a\<close> into the line, and the second run takes it for the value
  \<open>b\<close>.\<close>

lemma rewrite_line_token_is_value:
  \<open>rewrite_line [(''b'', ''c''), (''a'', ''b'')] ''x = "a"'' = Some ''x = "b"'' \<and>
   rewrite_line [(''b'', ''c''), (''a'', ''b'')] ''x = "b"'' = Some ''x = "c"''\<close>
  by (simp add: re_eval)

lemma example_table_plain: "plain_table example_table"
  unfolding example_table_def
  by (rule load_settings_plain_table)
    (simp add: plain_def placeholder_ok_def special_chars_def quote_chars_def)

lemma shares_quote_example: \<open>shares_quote ''Acme'' ''"Acme"Acme"''\<close>
  by (simp add: shares_quote_def quote_chars_def)

section \<open>Lemmas on the header check\<close>

text \<open>For values that are ASCII the check refuses exactly the values of more than one
  line.\<close>

lemma first_error_ascii:
  "list_all (\<lambda>(name, val). is_ascii val) hs \<Longrightarrow>
     first_error (forbid_multi_line_headers encode) hs
       = (if list_ex (\<lambda>(name, val). multi_line val) hs then Some BadHeaderError else None)"
  by (induction hs) (auto simp: forbid_multi_line_headers_def)

section \<open>The claims on user activation\<close>

text \<open>
  Claim C1. The specification says that \<open>activate_user\<close> raises no error for any input
  string, and returns no value and changes nothing for a malformed, unknown, expired or
  consumed key. For a malformed key, the sentinel and an unknown key that is so
  (\<open>activate_user_malformed\<close>, \<open>activate_user_sentinel\<close>, \<open>activate_user_unknown\<close>).
  For a key that matches the pattern and that exactly one row holds, the code goes on to
  \<open>activation_key_expired\<close>, whose lookup of \<open>self.ACTIVATED\<close> fails: the call
  raises \<open>AttributeError\<close>, whatever the age of the key. The state is unchanged.
\<close>

theorem activate_user_found_raises:
  assumes "SHA1_RE_search key"
    and "filter (\<lambda>u. activation_key u = key) (user_rows db) = [u]"
  shows "activate_user cfg now key db = (Inl AttributeError, db)"
  using assms
  by (simp add: activate_user_def get_by_activation_key_def activation_key_expired_AttributeError)

text \<open>The instance: a key that is eight days old, with seven days allowed.\<close>

theorem activate_user_found_raises_witness:
  "activate_user example_settings (timedelta_days 8) example_key example_db
     = (Inl AttributeError, example_db)"
proof -
  have m: "SHA1_RE_search example_key" by (rule example_key_match)
  have f: "filter (\<lambda>u. activation_key u = example_key) (user_rows example_db) = [example_user]"
    by (simp add: example_db_def example_user_def)
  show ?thesis by (rule activate_user_found_raises [OF m f])
qed

text \<open>
  Claim C2, as amended. The specification says that the key of every stored user is a
  digest of forty lowercase hexadecimal characters or the sentinel. A user that never
  got a key holds the empty default, so the predicate that every operation of the
  manager keeps is \<open>keys_ok\<close>: every row, and every user written or announced, holds
  the empty string, such a digest or the sentinel.
\<close>

theorem manager_operations_keep_keys_ok:
  assumes "keys_ok db"
  shows "keys_ok (snd (create_user fw now email' password' act db)) \<and>
         keys_ok (snd (create_superuser fw now email' password' db)) \<and>
         keys_ok (snd (create_inactive_user fw now rnd email' password' extra_info db)) \<and>
         keys_ok (snd (activate_user cfg now key db))"
  using assms
  by (simp add: create_user_keys_ok create_superuser_keys_ok create_inactive_user_keys_ok
      activate_user_state)

theorem manager_operations_keep_keys_ok_witness:
  "keys_ok example_db \<and>
   keys_ok (snd (create_user example_framework 5 (Some ''bob@acme.test'') (Some ''pw'') True
      example_db)) \<and>
   keys_ok (snd (create_superuser example_framework 5 (Some ''bob@acme.test'') (Some ''pw'')
      example_db)) \<and>
   keys_ok (snd (create_inactive_user example_framework 5 ''0.25'' (Some ''bob@acme.test'')
      (Some ''pw'') None example_db)) \<and>
   keys_ok (snd (activate_user example_settings 5 example_key example_db))"
  using example_db_keys_ok
    manager_operations_keep_keys_ok [OF example_db_keys_ok, where fw = example_framework
      and now = 5 and email' = "Some ''bob@acme.test''" and password' = "Some ''pw''"
      and act = True and rnd = "''0.25''" and extra_info = None and cfg = example_settings
      and key = example_key]
  by simp

text \<open>Claim C2 as the specification states it fails: \<open>create_user\<close> stores a user whose
  key is empty, neither a digest nor the sentinel.\<close>

theorem create_user_key_counterexample:
  "(case create_user example_framework 0 (Some ''ann@acme.test'') (Some ''pw'') True empty_db of
      (Inr u, db) \<Rightarrow>
        u \<in> set (user_rows db) \<and> activation_key u = [] \<and>
        \<not> (hex40 (activation_key u) \<or> activation_key u = ACTIVATED)
    | (Inl e, db) \<Rightarrow> False)"
  by (simp add: create_user_def User_save_def save_base_def db_insert_def next_pk_def
      example_framework_def empty_db_def hex40_def ACTIVATED_def)

text \<open>
  Claim C6. The specification says that \<open>activation_key_expired\<close> is true exactly when
  the key is the sentinel or \<open>created\<close> plus the allowed days is at most the current
  time. The method never gets that far: it reads \<open>self.ACTIVATED\<close>, a name that the
  module binds and the class does not, and raises \<open>AttributeError\<close> for every user.
\<close>

theorem activation_key_expired_raises:
  "activation_key_expired cfg now u = Inl AttributeError"
  by (simp add: activation_key_expired_def User_getattr_ACTIVATED)

text \<open>The instances: a consumed key, a user on the boundary, and one a second before
  it.\<close>

theorem activation_key_expired_raises_witness:
  "activation_key_expired example_settings (timedelta_days 7)
     (example_user\<lparr>activation_key := ACTIVATED\<rparr>) = Inl AttributeError \<and>
   activation_key_expired example_settings (timedelta_days 7) example_user = Inl AttributeError \<and>
   activation_key_expired example_settings (timedelta_days 7 - 1000000) example_user
     = Inl AttributeError"
  using activation_key_expired_raises [of example_settings "timedelta_days 7"
      "example_user\<lparr>activation_key := ACTIVATED\<rparr>"]
    activation_key_expired_raises [of example_settings "timedelta_days 7" example_user]
    activation_key_expired_raises [of example_settings "timedelta_days 7 - 1000000" example_user]
  by simp

text \<open>
  Claim C7. The specification says that a valid, unexpired key of an inactive user
  activates the user, stores the sentinel and returns the user. One second after the
  user of the example was created, with seven days allowed, the call raises
  \<open>AttributeError\<close> and the user stays inactive with the key unchanged.
\<close>

theorem activate_user_valid_key_raises:
  "activate_user example_settings 1000000 example_key example_db
     = (Inl AttributeError, example_db)"
  by (simp add: activate_user_def get_by_activation_key_def example_key_match
      activation_key_expired_def User_getattr_def example_db_def example_user_def)

section \<open>The claims on the creation of users\<close>

text \<open>
  Claim C9. With an empty or absent email, \<open>create_user\<close> raises \<open>ValueError\<close> and
  stores nothing, and \<open>create_superuser\<close> and \<open>create_inactive_user\<close> pass the error
  on: the state is the one before the call, with no row written and no signal sent.
\<close>

theorem create_user_empty_email:
  assumes "email' = None \<or> email' = Some []"
  shows "create_user fw now email' password' is_active' db = (Inl ValueError, db) \<and>
         create_superuser fw now email' password' db = (Inl ValueError, db) \<and>
         create_inactive_user fw now rnd email' password' extra_info db = (Inl ValueError, db)"
  using assms
  by (auto simp: create_user_def create_superuser_def create_inactive_user_def)

theorem create_user_empty_email_witness:
  "create_user example_framework 0 (Some []) (Some ''pw'') True example_db
     = (Inl ValueError, example_db) \<and>
   create_superuser example_framework 0 None (Some ''pw'') example_db
     = (Inl ValueError, example_db) \<and>
   create_inactive_user example_framework 0 ''0.5'' (Some []) (Some ''pw'') None example_db
     = (Inl ValueError, example_db)"
  using create_user_empty_email [of "Some []" example_framework 0 "Some ''pw''" True
      example_db "''0.5''" None]
    create_user_empty_email [of None example_framework 0 "Some ''pw''" True
      example_db "''0.5''" None]
  by simp

text \<open>
  Claim C10. \<open>create_inactive_user\<close> writes the user twice. When it returns a user,
  the trace has grown by exactly three events in this order: the write inside
  \<open>create_user\<close>, of the user with the empty key; the second write, of the user with
  the fresh key of forty hexadecimal characters; and the signal
  \<open>inactive_user_created\<close>. After the first write the table holds the row with the
  empty key, after the second the same row with the key.
\<close>

theorem create_inactive_user_two_writes:
  assumes "create_inactive_user fw now rnd email' password' extra_info db = (Inr u, db')"
  shows "trace db' = trace db @
           [Persisted (u\<lparr>activation_key := []\<rparr>), Persisted u,
            Inactive_user_created u extra_info] \<and>
         fst (create_user fw now email' password' False db) = Inr (u\<lparr>activation_key := []\<rparr>) \<and>
         user_rows (snd (create_user fw now email' password' False db))
           = user_rows db @ [u\<lparr>activation_key := []\<rparr>] \<and>
         user_rows db' = user_rows db @ [u] \<and>
         activation_key u = get_activation_key fw rnd (email u) \<and>
         hex40 (activation_key u) \<and> \<not> is_active u"
proof -
  from assms obtain u0 db0 where
    cu: "create_user fw now email' password' False db = (Inr u0, db0)"
    by (auto simp: create_inactive_user_def split: prod.splits sum.splits)
  let ?u1 = "u0\<lparr>activation_key := get_activation_key fw rnd (email u0)\<rparr>"
  from assms cu obtain db1 where
    s2: "User_save ?u1 db0 = (Inr u, db1)"
    and db': "db' = db1\<lparr>trace := trace db1 @ [Inactive_user_created u extra_info]\<rparr>"
    by (auto simp: create_inactive_user_def split: prod.splits sum.splits)
  let ?new = "\<lparr>pk = None, password = make_password fw password', is_superuser = False,
      email = normalize_email fw (the email'), created = now, is_active = False,
      is_staff = False, activation_key = []\<rparr>"
  from create_user_Inr(3) [OF cu] obtain c rows0 where
    sb0: "save_base (\<lambda>a b. email a = email b) ?new (user_rows db) = (Inr (u0, c), rows0)"
    and db0: "db0 = db\<lparr>user_rows := rows0, trace := trace db @ [Persisted u0]\<rparr>"
    by (auto simp: User_save_def split: prod.splits sum.splits)
  from save_base_Inr [OF sb0]
  have u0: "u0 = ?new\<lparr>pk := Some (next_pk (user_rows db))\<rparr>"
    and rows0: "rows0 = user_rows db @ [u0]"
    by auto
  have fresh: "\<forall>r\<in>set (user_rows db). pk r \<noteq> pk u0"
    using next_pk_fresh [of _ "user_rows db"] u0 by auto
  from s2 obtain c1 rows1 where
    sb1: "save_base (\<lambda>a b. email a = email b) ?u1 (user_rows db0) = (Inr (u, c1), rows1)"
    and db1: "db1 = db0\<lparr>user_rows := rows1, trace := trace db0 @ [Persisted u]\<rparr>"
    by (auto simp: User_save_def split: prod.splits sum.splits)
  have pk1: "pk ?u1 = Some (next_pk (user_rows db))" using u0 by simp
  have present: "list_ex (\<lambda>r. pk r = Some (next_pk (user_rows db))) (user_rows db0)"
    using db0 rows0 u0 by (simp add: list_ex_iff)
  from sb1 pk1 present have u: "u = ?u1"
    and rows1: "rows1 = map (\<lambda>r. if pk r = pk ?u1 then ?u1 else r) (user_rows db0)"
    by (auto simp: save_base_def db_update_def split: if_splits)
  have rows1': "rows1 = user_rows db @ [u]"
    using db_update_after_insert [OF fresh, of ?u1] rows1 db0 rows0 u by simp
  have u_empty: "u\<lparr>activation_key := []\<rparr> = u0" using u u0 by simp
  show ?thesis
    using db' db1 db0 rows0 rows1' u_empty cu u u0
    by (simp add: get_activation_key_hex40)
qed

theorem create_inactive_user_two_writes_witness:
  "create_inactive_user example_framework 5 ''0.25'' (Some ''ann@acme.test'') (Some ''pw'')
     None empty_db
   = (Inr example_inactive,
      \<lparr>user_rows = [example_inactive],
       trace = [Persisted (example_inactive\<lparr>activation_key := []\<rparr>),
                Persisted example_inactive, Inactive_user_created example_inactive None]\<rparr>) \<and>
   activation_key (example_inactive\<lparr>activation_key := []\<rparr>) = [] \<and>
   hex40 (activation_key example_inactive) \<and> \<not> is_active example_inactive"
  using create_inactive_user_example
    create_inactive_user_two_writes [OF create_inactive_user_example]
  by (simp add: get_activation_key_hex40)

section \<open>The claim on pages\<close>

text \<open>
  Claim C3, as amended. A page saved with no name gets the name derived from its url:
  every slash replaced by a hyphen, then the hyphens at both ends removed; that name is
  the one of the row written. The name is not empty exactly when the url has a
  character other than the slash and the hyphen. The instance is the url
  \<open>/about/team\<close>, which gives \<open>about-team\<close>.
\<close>

theorem Page_save_derived_name:
  assumes "name p = []" and "Page_save p rows = (Inr (q, c), rows')"
  shows "name q = strip_char (CHR ''-'') (replace_char (CHR ''/'') (CHR ''-'') (url p)) \<and>
         q \<in> set rows' \<and>
         (name q \<noteq> []) = list_ex (\<lambda>ch. ch \<noteq> CHR ''/'' \<and> ch \<noteq> CHR ''-'') (url p)"
proof -
  let ?n = "strip_char (CHR ''-'') (replace_char (CHR ''/'') (CHR ''-'') (url p))"
  from assms have sb:
    "save_base (\<lambda>a b. name a = name b \<or> url a = url b) (p\<lparr>name := ?n\<rparr>) rows
       = (Inr (q, c), rows')"
    by (simp add: Page_save_def)
  from save_base_Inr [OF sb] have n: "name q = ?n" and m: "q \<in> set rows'"
    by (auto simp: list_ex_iff)
  from n m show ?thesis by (simp add: derived_name_nonempty)
qed

theorem Page_save_derived_name_witness:
  "name example_page = [] \<and>
   Page_save example_page []
     = (Inr (example_page\<lparr>pk := Some 1, name := ''about-team''\<rparr>, True),
        [example_page\<lparr>pk := Some 1, name := ''about-team''\<rparr>]) \<and>
   name (example_page\<lparr>pk := Some 1, name := ''about-team''\<rparr>) = ''about-team'' \<and>
   ''about-team'' = strip_char (CHR ''-'') (replace_char (CHR ''/'') (CHR ''-'') ''/about/team'')"
proof -
  have e: "name example_page = []" by (simp add: example_page_def)
  from Page_save_derived_name [OF e Page_save_example] e Page_save_example
  show ?thesis by (simp add: example_page_def)
qed

text \<open>Claim C3 as the specification states it fails: the page with the url \<open>/\<close> and no
  name is written with the empty name.\<close>

theorem Page_save_empty_name_counterexample:
  "(case Page_save (example_page\<lparr>url := ''/''\<rparr>) [] of
      (Inr (q, c), rows) \<Rightarrow> q \<in> set rows \<and> url q = ''/'' \<and> name q = []
    | (Inl e, rows) \<Rightarrow> False)"
  by (simp add: Page_save_def example_page_def save_base_def db_insert_def next_pk_def
      strip_char_def replace_char_def)

section \<open>The claim on the contact notification\<close>




section \<open>The claims on the substitution\<close>

text \<open>
  Claim C4. The specification says that a quoted text is rewritten exactly when the
  text between the quotes equals the concrete value character for character. The value
  is put into the pattern as it is, so its characters are read as a regular expression:
  with the manifest entry \<open>domain\<close> for the value \<open>acme.com\<close>, the dot matches the
  hyphen, and the line that quotes \<open>acme-com\<close> is rewritten to the placeholder of
  \<open>domain\<close>.
\<close>

theorem rewrite_line_dot_is_wildcard:
  \<open>rewrite_line (load_settings [(''domain'', ''acme.com'')]) ''HOST = "acme-com"''
     = Some ''HOST = "{{cookiecutter.domain}}"''\<close>
  by (simp add: load_settings_def placeholder_def re_eval)

text \<open>
  Claim C5, as amended. For a table of plain values, a line in which no two quoted
  occurrences of one concrete value share a quote character is brought by one run of
  the substitution to a line that a second run with the same table leaves unchanged.
  Every table that \<open>load_settings\<close> builds from a manifest with plain values, and with
  keys free of quotes and backslashes, is such a table (\<open>load_settings_plain_table\<close>).
\<close>

theorem rewrite_line_idempotent:
  assumes "plain_table table"
    and "list_all (\<lambda>(v, t). \<not> shares_quote v line) table"
  shows "\<exists>l. rewrite_line table line = Some l \<and> rewrite_line table l = Some l"
proof -
  obtain s0 qs where wf: "wf_segs s0 qs" and line: "line = join s0 qs"
    using split_exists by blast
  from assms(1) have ok: "list_all (\<lambda>(v, t). plain v \<and> placeholder_ok t) table"
    by (auto simp: plain_table_def list_all_iff)
  let ?W = "fst ` set table"
  from assms(1) have tok: "\<forall>(v, t)\<in>set table. t \<notin> ?W \<and> v \<in> ?W"
    by (force simp: plain_table_def list_all_iff)
  have nadj: "\<forall>(v, t)\<in>set table. \<not> adj v qs"
  proof (clarify)
    fix v t assume m: "(v, t) \<in> set table" and a: "adj v qs"
    from ok m have "plain v" by (auto simp: list_all_iff)
    from adj_shares_quote [OF a plain_quote_free [OF this] wf] line
    have "shares_quote v line" by simp
    with assms(2) m show False by (auto simp: list_all_iff)
  qed
  let ?l = "join s0 (passes table qs)"
  from rewrite_line_join [OF ok wf] line
  have run: "rewrite_line table line = Some ?l" and wf': "wf_segs s0 (passes table qs)"
    by simp_all
  have "list_all (\<lambda>(key, value). \<not> quoted_occurs key ?l) table"
    unfolding list_all_iff
  proof (clarify)
    fix v t assume m: "(v, t) \<in> set table" and occ: "quoted_occurs v ?l"
    from ok m have pv: "plain v" by (auto simp: list_all_iff)
    from occ have "re_search (quoted_pattern v) ?l"
      by (simp add: quoted_occurs_def re_parse_QUOTED [OF pv])
    from re_search_join [OF plain_quote_free [OF pv] wf' this]
    have "v \<in> inner (passes table qs)" .
    moreover have "v \<notin> inner (passes table qs)"
    proof (rule passes_clean [OF tok nadj])
      from m show "v \<in> ?W" by force
      from m show "v \<notin> inner qs \<or> v \<in> ?W" by force
    qed
    ultimately show False by simp
  qed
  from rewrite_line_fixed_point [OF run this] run show ?thesis by blast
qed

text \<open>The instance: the project name quoted twice in one line, once with each kind of
  quote.\<close>

theorem rewrite_line_idempotent_witness:
  \<open>plain_table example_table \<and>
   \<not> shares_quote ''Acme'' (''A = "Acme"; B = 'Acme' '' @ [CHR 0x0A]) \<and>
   rewrite_line example_table (''A = "Acme"; B = 'Acme' '' @ [CHR 0x0A])
     = Some (''A = "{{cookiecutter.project_name}}"; B = "{{cookiecutter.project_name}}" ''
          @ [CHR 0x0A]) \<and>
   rewrite_line example_table
      (''A = "{{cookiecutter.project_name}}"; B = "{{cookiecutter.project_name}}" '' @ [CHR 0x0A])
     = Some (''A = "{{cookiecutter.project_name}}"; B = "{{cookiecutter.project_name}}" ''
          @ [CHR 0x0A])\<close>
proof -
  let ?line = \<open>''A = "Acme"; B = 'Acme' '' @ [CHR 0x0A]\<close>
  let ?out = \<open>''A = "{{cookiecutter.project_name}}"; B = "{{cookiecutter.project_name}}" ''
          @ [CHR 0x0A]\<close>
  have none: "\<not> shares_quote ''Acme'' ?line"
    by (simp add: shares_quote_def quote_chars_def)
  then have all: "list_all (\<lambda>(v, t). \<not> shares_quote v ?line) example_table"
    by (simp add: example_table_eq)
  have run: "rewrite_line example_table ?line = Some ?out"
    by (simp add: example_table_eq re_eval)
  from rewrite_line_idempotent [OF example_table_plain all] run
  have "rewrite_line example_table ?out = Some ?out" by auto
  with example_table_plain none run show ?thesis by simp
qed

text \<open>
  Claim C5 as the specification states it fails. Two quoted occurrences of the value
  that share a quote are not both replaced by one run: the run gives a line in which
  the closing quote of the placeholder opens a new occurrence, and the second run
  rewrites that line again.
\<close>

theorem rewrite_line_second_run_changes:
  \<open>rewrite_line example_table ''"Acme"Acme"''
     = Some ''"{{cookiecutter.project_name}}"Acme"'' \<and>
   rewrite_line example_table ''"{{cookiecutter.project_name}}"Acme"''
     = Some ''"{{cookiecutter.project_name}}"{{cookiecutter.project_name}}"'' \<and>
   ''"{{cookiecutter.project_name}}"Acme"''
     \<noteq> ''"{{cookiecutter.project_name}}"{{cookiecutter.project_name}}"''\<close>
  by (simp add: example_table_eq re_eval)

end
